theory Spec2Isabelle
  imports Complex_Main "HOL-Library.AList" "HOL-Library.Sublist"
begin

section \<open>The DNS notebook: Shannon entropy and the query aggregation loop\<close>

text \<open>
  The notebook \<^verbatim>\<open>dns.ipynb\<close> splits a Zeek DNS log into rows, and in one pass
  over the rows builds the dictionary \<^verbatim>\<open>queries\<close>: domain \<open>\<rightarrow>\<close> count and
  subdomains, subdomain \<open>\<rightarrow>\<close> count and entropy.

  Conventions of the embedding.
  \<^item> A Python \<^verbatim>\<open>str\<close> is a list of characters; the string primitives and
    \<^verbatim>\<open>shannon_entropy\<close> are polymorphic in the character, the aggregation loop works
    on \<^typ>\<open>string\<close>, whose characters are the 256 characters of \<^typ>\<open>char\<close> (a log
    of ASCII or Latin-1 text, one \<^typ>\<open>char\<close> per code point).
  \<^item> A Python \<^verbatim>\<open>dict\<close> is an association list in insertion order, read with
    \<^const>\<open>map_of\<close> and written with \<^const>\<open>AList.update\<close> (which overwrites in place and
    appends a new key at the end, as a dict does).
  \<^item> A Python \<^verbatim>\<open>float\<close> is a real number, and the float operations are exact:
    the rounding of IEEE doubles and of the C library's logarithm is not modelled. The
    entropy value of the model is therefore the code's value only where the doubles are
    exact (in this theory: the values 0, 1 and 2); what the properties below use of
    \<^verbatim>\<open>shannon_entropy\<close> is that it returns, that it is a function of the string,
    and those values. No property about the rounded value of an entropy is stated.
  \<^item> Every place where the interpreter can raise is a value \<open>Inl\<close> of type \<open>error\<close>.
\<close>

subsection \<open>Exceptions\<close>

datatype error = IndexError | KeyError | ValueError | ZeroDivisionError

subsection \<open>String and list primitives of Python\<close>

text \<open>\<^verbatim>\<open>s.startswith(p)\<close>\<close>

definition startswith :: "'a list \<Rightarrow> 'a list \<Rightarrow> bool" where
  "startswith s p = prefix p s"

text \<open>\<^verbatim>\<open>s.split(sep)\<close> for a separator of one character: never an empty list.\<close>

fun str_split :: "'a \<Rightarrow> 'a list \<Rightarrow> 'a list list" where
  "str_split sep [] = [[]]"
| "str_split sep (c # cs) =
     (if c = sep then [] # str_split sep cs
      else (case str_split sep cs of [] \<Rightarrow> [[c]] | w # ws \<Rightarrow> (c # w) # ws))"

text \<open>\<^verbatim>\<open>sep.join(xs)\<close>\<close>

fun str_join :: "'a list \<Rightarrow> 'a list list \<Rightarrow> 'a list" where
  "str_join sep [] = []"
| "str_join sep [x] = x"
| "str_join sep (x # y # ys) = x @ sep @ str_join sep (y # ys)"

text \<open>
  \<^verbatim>\<open>s.replace(old, new)\<close>: every occurrence of \<open>old\<close>, found from the left and not
  overlapping, is replaced. With an empty \<open>old\<close>, \<open>new\<close> is put before every character
  and at the end.
\<close>

function str_replace :: "'a list \<Rightarrow> 'a list \<Rightarrow> 'a list \<Rightarrow> 'a list" where
  "str_replace old new [] = (if old = [] then new else [])"
| "str_replace old new (c # cs) =
     (if old = [] then new @ c # str_replace old new cs
      else if prefix old (c # cs)
        then new @ str_replace old new (drop (length old) (c # cs))
        else c # str_replace old new cs)"
  by pat_completeness auto
termination
  by (relation "measure (\<lambda>(old, new, s). length s)") auto

text \<open>\<^verbatim>\<open>xs[-2:]\<close>: the last two elements, or all of them when there are fewer.\<close>

definition last_two :: "'a list \<Rightarrow> 'a list" where
  "last_two xs = drop (length xs - 2) xs"

text \<open>\<^verbatim>\<open>s[:-1]\<close>: all but the last character; the empty string stays empty.\<close>

definition drop_last :: "'a list \<Rightarrow> 'a list" where
  "drop_last s = take (length s - 1) s"

text \<open>\<^verbatim>\<open>xs[i]\<close> for \<open>i \<ge> 0\<close>, and \<^verbatim>\<open>d[k]\<close>.\<close>

definition list_getitem :: "'a list \<Rightarrow> nat \<Rightarrow> error + 'a" where
  "list_getitem xs i = (if i < length xs then Inr (xs ! i) else Inl IndexError)"

definition dict_getitem :: "('k \<times> 'v) list \<Rightarrow> 'k \<Rightarrow> error + 'v" where
  "dict_getitem d k = (case map_of d k of None \<Rightarrow> Inl KeyError | Some v \<Rightarrow> Inr v)"

text \<open>\<^verbatim>\<open>k in d.keys()\<close>\<close>

definition dict_keys :: "('k \<times> 'v) list \<Rightarrow> 'k list" where
  "dict_keys d = map fst d"

subsection \<open>\<^verbatim>\<open>shannon_entropy\<close>\<close>

text \<open>
  \<^verbatim>\<open>Counter(data)\<close>: the characters in the order of their first occurrence, each with
  the number of its occurrences.
\<close>

definition Counter_add :: "('a \<times> int) list \<Rightarrow> 'a \<Rightarrow> ('a \<times> int) list" where
  "Counter_add counts c =
     AList.update c ((case map_of counts c of None \<Rightarrow> 0 | Some n \<Rightarrow> n) + 1) counts"

definition Counter :: "'a list \<Rightarrow> ('a \<times> int) list" where
  "Counter data = foldl Counter_add [] data"

text \<open>
  \<^verbatim>\<open>a / b\<close> on integers, and \<^verbatim>\<open>math.log(x, b)\<close>, which is
  \<open>log(x) / log(b)\<close>: the exceptions as the interpreter raises them, the values in exact
  arithmetic (the code's values are doubles, rounded at every operation).
\<close>

definition py_truediv :: "int \<Rightarrow> int \<Rightarrow> error + real" where
  "py_truediv a b =
     (if b = 0 then Inl ZeroDivisionError else Inr (real_of_int a / real_of_int b))"

definition math_log :: "real \<Rightarrow> real \<Rightarrow> error + real" where
  "math_log x b =
     (if x \<le> 0 \<or> b \<le> 0 then Inl ValueError
      else if ln b = 0 then Inl ZeroDivisionError
      else Inr (ln x / ln b))"

text \<open>
  The loop \<^verbatim>\<open>for count in counts.values()\<close>, with the running value of
  \<^verbatim>\<open>entropy\<close>; the sum is accumulated in exact arithmetic.
\<close>

fun entropy_loop :: "int \<Rightarrow> real \<Rightarrow> int list \<Rightarrow> error + real" where
  "entropy_loop len entropy [] = Inr entropy"
| "entropy_loop len entropy (count # rest) =
     (case py_truediv count len of
        Inl e \<Rightarrow> Inl e
      | Inr p_x \<Rightarrow>
          (case math_log p_x 2 of
             Inl e \<Rightarrow> Inl e
           | Inr l \<Rightarrow> entropy_loop len (entropy + - p_x * l) rest))"

definition shannon_entropy :: "'a list \<Rightarrow> error + real" where
  "shannon_entropy data =
     (if data = [] then Inr 0
      else entropy_loop (int (length data)) 0 (map snd (Counter data)))"

subsection \<open>The dictionary \<^verbatim>\<open>queries\<close>\<close>

record subdomain_aggregate =
  sub_count :: int
  entropy :: real

record query_aggregate =
  count :: int
  subdomains :: "(string \<times> subdomain_aggregate) list"

type_synonym queries = "(string \<times> query_aggregate) list"

subsection \<open>The body of the aggregation loop\<close>

text \<open>\<^verbatim>\<open>domain = ".".join(query.split(".")[-2:])\<close>\<close>

definition domain_of :: "string \<Rightarrow> string" where
  "domain_of query = str_join ''.'' (last_two (str_split CHR ''.'' query))"

text \<open>\<^verbatim>\<open>subdomain = query.replace(domain, "")[:-1]\<close>\<close>

definition subdomain_of :: "string \<Rightarrow> string \<Rightarrow> string" where
  "subdomain_of query domain = drop_last (str_replace domain [] query)"

text \<open>\<^verbatim>\<open>if domain not in queries.keys(): queries[domain] = {count: 0, subdomains: {}}\<close>\<close>

definition init_domain :: "queries \<Rightarrow> string \<Rightarrow> queries" where
  "init_domain queries domain =
     (if domain \<in> set (dict_keys queries) then queries
      else AList.update domain \<lparr>count = 0, subdomains = []\<rparr> queries)"

text \<open>
  \<^verbatim>\<open>if subdomain not in queries[domain]["subdomains"].keys(): ...\<close>: the new entry
  has count 0 and the entropy of the subdomain string.
\<close>

definition init_subdomain :: "queries \<Rightarrow> string \<Rightarrow> string \<Rightarrow> error + queries" where
  "init_subdomain queries domain subdomain =
     (case dict_getitem queries domain of
        Inl e \<Rightarrow> Inl e
      | Inr qa \<Rightarrow>
          if subdomain \<in> set (dict_keys (subdomains qa)) then Inr queries
          else
            (case shannon_entropy subdomain of
               Inl e \<Rightarrow> Inl e
             | Inr h \<Rightarrow>
                 Inr (AList.update domain
                   (qa\<lparr>subdomains :=
                      AList.update subdomain \<lparr>sub_count = 0, entropy = h\<rparr> (subdomains qa)\<rparr>)
                   queries)))"

text \<open>\<^verbatim>\<open>queries[domain]["count"] += 1\<close>\<close>

definition incr_domain :: "queries \<Rightarrow> string \<Rightarrow> error + queries" where
  "incr_domain queries domain =
     (case dict_getitem queries domain of
        Inl e \<Rightarrow> Inl e
      | Inr qa \<Rightarrow> Inr (AList.update domain (qa\<lparr>count := count qa + 1\<rparr>) queries))"

text \<open>\<^verbatim>\<open>queries[domain]["subdomains"][subdomain]["count"] += 1\<close>\<close>

definition incr_subdomain :: "queries \<Rightarrow> string \<Rightarrow> string \<Rightarrow> error + queries" where
  "incr_subdomain queries domain subdomain =
     (case dict_getitem queries domain of
        Inl e \<Rightarrow> Inl e
      | Inr qa \<Rightarrow>
          (case dict_getitem (subdomains qa) subdomain of
             Inl e \<Rightarrow> Inl e
           | Inr sa \<Rightarrow>
               Inr (AList.update domain
                 (qa\<lparr>subdomains :=
                    AList.update subdomain (sa\<lparr>sub_count := sub_count sa + 1\<rparr>) (subdomains qa)\<rparr>)
                 queries)))"

text \<open>The four statements after the safelist check, in the order of the source.\<close>

definition record_query :: "queries \<Rightarrow> string \<Rightarrow> string \<Rightarrow> error + queries" where
  "record_query queries domain subdomain =
     (case init_subdomain (init_domain queries domain) domain subdomain of
        Inl e \<Rightarrow> Inl e
      | Inr queries2 \<Rightarrow>
          (case incr_domain queries2 domain of
             Inl e \<Rightarrow> Inl e
           | Inr queries3 \<Rightarrow> incr_subdomain queries3 domain subdomain))"

text \<open>One iteration of \<^verbatim>\<open>for row in rows\<close>.\<close>

definition process_row :: "string list \<Rightarrow> queries \<Rightarrow> string \<Rightarrow> error + queries" where
  "process_row safelist queries row =
     (if startswith row ''#'' then Inr queries
      else
        let splitted_line = str_split (CHR 0x09) row in
        if length splitted_line < 24 then Inr queries
        else
          (case list_getitem splitted_line 9 of
             Inl e \<Rightarrow> Inl e
           | Inr query \<Rightarrow>
               let domain = domain_of query in
               if domain \<in> set safelist \<or> query \<in> set safelist then Inr queries
               else
                 (case shannon_entropy domain of
                    Inl e \<Rightarrow> Inl e
                  | Inr domain_entropy \<Rightarrow>
                      record_query queries domain (subdomain_of query domain))))"

text \<open>The loop, from a given dictionary; an exception ends it.\<close>

fun aggregate_rows :: "string list \<Rightarrow> queries \<Rightarrow> string list \<Rightarrow> error + queries" where
  "aggregate_rows safelist queries [] = Inr queries"
| "aggregate_rows safelist queries (row # rows) =
     (case process_row safelist queries row of
        Inl e \<Rightarrow> Inl e
      | Inr queries' \<Rightarrow> aggregate_rows safelist queries' rows)"

text \<open>
  The aggregator on a log text: \<^verbatim>\<open>rows = log.split("\n")\<close>, \<^verbatim>\<open>queries = {}\<close>,
  then the loop.
\<close>

definition aggregate :: "string list \<Rightarrow> string \<Rightarrow> error + queries" where
  "aggregate safelist log_text = aggregate_rows safelist [] (str_split (CHR 0x0A) log_text)"

subsection \<open>Reading the dictionary\<close>

text \<open>\<^verbatim>\<open>queries[domain]["subdomains"].get(subdomain)\<close>, with \<open>None\<close> for a missing key.\<close>

definition sub_lookup :: "queries \<Rightarrow> string \<Rightarrow> string \<Rightarrow> subdomain_aggregate option" where
  "sub_lookup queries domain subdomain =
     (case map_of queries domain of
        None \<Rightarrow> None
      | Some qa \<Rightarrow> map_of (subdomains qa) subdomain)"

text \<open>The sum of the counts of the subdomain entries of one domain.\<close>

definition sub_total :: "query_aggregate \<Rightarrow> int" where
  "sub_total qa = sum_list (map (\<lambda>kv. sub_count (snd kv)) (subdomains qa))"

text \<open>The keys of the dictionary: every domain key with its subdomain keys, in order.\<close>

definition key_tree :: "queries \<Rightarrow> (string \<times> string list) list" where
  "key_tree queries = map (\<lambda>kv. (fst kv, dict_keys (subdomains (snd kv)))) queries"

subsection \<open>The tests of the loop body, as predicates on a row\<close>

text \<open>
  The two line filters (\<^verbatim>\<open>row.startswith("#")\<close>,
  \<^verbatim>\<open>len(splitted_line) < 24\<close>), the field read by
  \<^verbatim>\<open>splitted_line[9]\<close>, and the safelist test of a row that passes the
  filters.
\<close>

definition skipped :: "string \<Rightarrow> bool" where
  "skipped row = (startswith row ''#'' \<or> length (str_split (CHR 0x09) row) < 24)"

definition query_field :: "string \<Rightarrow> string" where
  "query_field row = str_split (CHR 0x09) row ! 9"

definition safelisted :: "string list \<Rightarrow> string \<Rightarrow> bool" where
  "safelisted safelist row =
     (\<not> skipped row \<and>
      (domain_of (query_field row) \<in> set safelist \<or> query_field row \<in> set safelist))"

subsection \<open>The counts as numbers\<close>

text \<open>The count stored for a domain, and for a subdomain of a domain; 0 for a missing key.\<close>

definition domain_count :: "queries \<Rightarrow> string \<Rightarrow> int" where
  "domain_count queries domain =
     (case map_of queries domain of None \<Rightarrow> 0 | Some qa \<Rightarrow> count qa)"

definition subdomain_count :: "queries \<Rightarrow> string \<Rightarrow> string \<Rightarrow> int" where
  "subdomain_count queries domain subdomain =
     (case sub_lookup queries domain subdomain of None \<Rightarrow> 0 | Some sa \<Rightarrow> sub_count sa)"

subsection \<open>The notebook as a state\<close>

text \<open>
  The global variables of the notebook that the aggregation reads and writes. The ingestion
  cell sets \<^verbatim>\<open>rows = log.split("\n")\<close>; the aggregation cell starts with
  \<^verbatim>\<open>queries: dict = {}\<close>, runs the loop over \<^verbatim>\<open>rows\<close> and leaves the
  result in \<^verbatim>\<open>queries\<close>. The safelist, a literal of the cell, is a parameter.
\<close>

record notebook =
  nb_log :: string
  nb_rows :: "string list"
  nb_queries :: queries

definition cell_ingest :: "notebook \<Rightarrow> notebook" where
  "cell_ingest nb = nb\<lparr>nb_rows := str_split (CHR 0x0A) (nb_log nb)\<rparr>"

definition cell_aggregate :: "string list \<Rightarrow> notebook \<Rightarrow> error + notebook" where
  "cell_aggregate safelist nb =
     (case aggregate_rows safelist [] (nb_rows nb) of
        Inl e \<Rightarrow> Inl e
      | Inr queries \<Rightarrow> Inr (nb\<lparr>nb_queries := queries\<rparr>))"

definition run_notebook :: "string list \<Rightarrow> notebook \<Rightarrow> error + notebook" where
  "run_notebook safelist nb = cell_aggregate safelist (cell_ingest nb)"

subsection \<open>Concrete inputs\<close>

text \<open>
  A row of 24 tab-separated fields whose field 9 is the given query, and two small logs:
  one with a header line, a short line, a repeated query and a trailing newline, and one
  with a safelisted query next to a query that has the safelisted string as its left part.
\<close>

definition example_row :: "string \<Rightarrow> string" where
  "example_row query = str_join [CHR 0x09] (replicate 9 ''-'' @ [query] @ replicate 14 ''-'')"

definition example_log :: string where
  "example_log = str_join [CHR 0x0A]
     [''#fields'', example_row ''x1.evil.io'', ''short'', example_row ''x2.evil.io'',
      example_row ''x1.evil.io'', []]"

definition safelist_log :: string where
  "safelist_log = str_join [CHR 0x0A] [example_row ''msn.com'', example_row ''msn.com.evil.io'']"

section \<open>Properties\<close>

subsection \<open>Splitting and joining\<close>

lemma str_split_nonempty: "str_split sep s \<noteq> []"
  by (induction s) (auto split: list.splits)

lemma str_split_no_sep: "x \<in> set (str_split sep s) \<Longrightarrow> sep \<notin> set x"
  by (induction s arbitrary: x) (auto split: if_splits list.splits)

lemma str_split_append_sep:
  "sep \<notin> set x \<Longrightarrow> str_split sep (x @ sep # s) = x # str_split sep s"
  by (induction x) auto

lemma str_split_single: "sep \<notin> set x \<Longrightarrow> str_split sep x = [x]"
  by (induction x) auto

lemma str_split_join:
  "xs \<noteq> [] \<Longrightarrow> (\<And>x. x \<in> set xs \<Longrightarrow> sep \<notin> set x) \<Longrightarrow> str_split sep (str_join [sep] xs) = xs"
proof (induction xs)
  case Nil
  then show ?case by simp
next
  case (Cons x xs)
  show ?case
  proof (cases xs)
    case Nil
    with Cons.prems show ?thesis by (simp add: str_split_single)
  next
    case (Cons y ys)
    with Cons.IH Cons.prems show ?thesis by (simp add: str_split_append_sep)
  qed
qed

lemma str_replace_self: "str_replace s [] s = []"
  by (cases s) auto

lemma domain_of_no_dot: "CHR ''.'' \<notin> set q \<Longrightarrow> domain_of q = q"
  by (simp add: domain_of_def str_split_single last_two_def)

lemma subdomain_of_self: "subdomain_of q q = []"
  by (simp add: subdomain_of_def str_replace_self drop_last_def)

subsection \<open>The character counts and the entropy sum\<close>

lemma map_of_Counter_add:
  "map_of (Counter_add counts c) =
     (map_of counts)(c \<mapsto> (case map_of counts c of None \<Rightarrow> 0 | Some n \<Rightarrow> n) + 1)"
  by (simp add: Counter_add_def update_conv')

lemma keys_Counter_add: "fst ` set (Counter_add counts c) = insert c (fst ` set counts)"
  by (simp add: Counter_add_def dom_update)

lemma distinct_Counter_add:
  "distinct (map fst counts) \<Longrightarrow> distinct (map fst (Counter_add counts c))"
  by (simp add: Counter_add_def distinct_update)

lemma foldl_Counter_add_lookup:
  "map_of (foldl Counter_add acc data) c =
     (if c \<in> set data \<or> c \<in> fst ` set acc
      then Some ((case map_of acc c of None \<Rightarrow> 0 | Some n \<Rightarrow> n) + int (count_list data c))
      else None)"
proof (induction data arbitrary: acc)
  case Nil
  show ?case by (auto simp: map_of_eq_None_iff split: option.splits) 
next
  case (Cons a data)
  show ?case
    by (auto simp: Cons.IH map_of_Counter_add keys_Counter_add map_of_eq_None_iff split: option.splits)
qed

lemma foldl_Counter_add_keys:
  "fst ` set (foldl Counter_add acc data) = fst ` set acc \<union> set data"
  by (induction data arbitrary: acc) (auto simp: keys_Counter_add)

lemma foldl_Counter_add_distinct:
  "distinct (map fst acc) \<Longrightarrow> distinct (map fst (foldl Counter_add acc data))"
  by (induction data arbitrary: acc) (auto simp: distinct_Counter_add)

lemma Counter_keys: "fst ` set (Counter data) = set data"
  using foldl_Counter_add_keys [of "[]" data] by (simp add: Counter_def)

lemma Counter_distinct: "distinct (map fst (Counter data))"
  by (simp add: Counter_def foldl_Counter_add_distinct)

lemma Counter_lookup:
  "map_of (Counter data) c = (if c \<in> set data then Some (int (count_list data c)) else None)"
  by (simp add: Counter_def foldl_Counter_add_lookup)

lemma Counter_values:
  "map snd (Counter data) = map (\<lambda>c. int (count_list data c)) (map fst (Counter data))"
proof -
  have "snd kv = int (count_list data (fst kv))" if "kv \<in> set (Counter data)" for kv
  proof -
    have "map_of (Counter data) (fst kv) = Some (snd kv)"
      using that Counter_distinct [of data] by simp
    then show ?thesis
      by (simp add: Counter_lookup split: if_splits)
  qed
  then show ?thesis by simp
qed

text \<open>
  The value of the entropy in exact arithmetic. These lemmas serve to show that
  \<^const>\<open>shannon_entropy\<close> returns, and to evaluate it on the strings of the examples.
\<close>

lemma entropy_loop_sum:
  "0 < len \<Longrightarrow> (\<And>c. c \<in> set cs \<Longrightarrow> 0 < c) \<Longrightarrow>
   entropy_loop len e cs =
     Inr (e + (\<Sum>c\<leftarrow>cs. - (real_of_int c / real_of_int len) * log 2 (real_of_int c / real_of_int len)))"
proof (induction cs arbitrary: e)
  case Nil
  then show ?case by simp
next
  case (Cons c cs)
  have "0 < c" using Cons.prems(2) by simp
  with \<open>0 < len\<close> have p: "0 < real_of_int c / real_of_int len" by simp
  have step: "entropy_loop len e (c # cs) =
      entropy_loop len (e + - (real_of_int c / real_of_int len) * log 2 (real_of_int c / real_of_int len)) cs"
    using p \<open>0 < len\<close> by (simp add: py_truediv_def math_log_def log_def not_le)
  show ?case
    unfolding step using Cons.prems by (subst Cons.IH) (simp_all add: algebra_simps)
qed

lemma shannon_entropy_sum:
  "data \<noteq> [] \<Longrightarrow>
   shannon_entropy data =
     Inr (\<Sum>c\<in>set data. - (real (count_list data c) / real (length data)) *
                           log 2 (real (count_list data c) / real (length data)))"
proof -
  assume ne: "data \<noteq> []"
  let ?f = "\<lambda>n. - (real_of_int n / real_of_int (int (length data))) * log 2 (real_of_int n / real_of_int (int (length data)))"
  have pos: "0 < c" if "c \<in> set (map snd (Counter data))" for c
  proof -
    from that obtain k where "k \<in> set (map fst (Counter data))" "c = int (count_list data k)"
      unfolding Counter_values by auto
    then show ?thesis using Counter_keys [of data] count_list_0_iff [of data k] by auto
  qed
  have "shannon_entropy data = Inr (0 + (\<Sum>c\<leftarrow>map snd (Counter data). ?f c))"
  proof -
    have "entropy_loop (int (length data)) 0 (map snd (Counter data)) =
        Inr (0 + (\<Sum>c\<leftarrow>map snd (Counter data). ?f c))"
      using ne pos by (intro entropy_loop_sum) simp_all
    with ne show ?thesis by (simp only: shannon_entropy_def if_False)
  qed
  also have "(\<Sum>c\<leftarrow>map snd (Counter data). ?f c) = (\<Sum>k\<leftarrow>map fst (Counter data). ?f (int (count_list data k)))"
    by (subst Counter_values) (simp add: comp_def)
  also have "\<dots> = (\<Sum>k\<in>set (map fst (Counter data)). ?f (int (count_list data k)))"
    using Counter_distinct [of data] by (rule sum_list_distinct_conv_sum_set)
  finally show ?thesis by (simp add: Counter_keys)
qed

lemma shannon_entropy_total: "\<exists>h. shannon_entropy data = Inr h"
proof (cases "data = []")
  case True
  then show ?thesis by (simp add: shannon_entropy_def)
next
  case False
  then show ?thesis by (simp add: shannon_entropy_sum)
qed

lemma shannon_entropy_uniform:
  assumes ne: "data \<noteq> []"
    and k: "card (set data) = k"
    and freq: "\<And>c. c \<in> set data \<Longrightarrow> real (count_list data c) / real (length data) = 1 / real k"
  shows "shannon_entropy data = Inr (log 2 (real k))"
proof -
  from ne k have kpos: "0 < k" by (auto simp: card_gt_0_iff)
  have "(\<Sum>c\<in>set data. - (real (count_list data c) / real (length data)) *
                           log 2 (real (count_list data c) / real (length data)))
      = (\<Sum>c\<in>set data. - (1 / real k) * log 2 (1 / real k))"
    by (rule sum.cong) (simp_all add: freq)
  also have "\<dots> = real k * (- (1 / real k) * log 2 (1 / real k))"
    by (simp add: k)
  also have "\<dots> = - log 2 (1 / real k)"
    using kpos by simp
  also have "\<dots> = log 2 (real k)"
    using kpos by (simp add: log_divide)
  finally show ?thesis by (simp add: shannon_entropy_sum [OF ne])
qed

subsection \<open>One iteration of the loop\<close>

lemma in_dict_keys: "k \<in> set (dict_keys d) \<longleftrightarrow> map_of d k \<noteq> None"
  by (simp add: dict_keys_def map_of_eq_None_iff)

lemma record_query_result:
  assumes h: "shannon_entropy subdomain = Inr h"
  shows "record_query queries domain subdomain =
     Inr (let qa = (case map_of queries domain of
                      None \<Rightarrow> \<lparr>count = 0, subdomains = []\<rparr> | Some qa \<Rightarrow> qa);
              sa = (case map_of (subdomains qa) subdomain of
                      None \<Rightarrow> \<lparr>sub_count = 0, entropy = h\<rparr> | Some sa \<Rightarrow> sa)
          in AList.update domain
               (qa\<lparr>count := count qa + 1,
                   subdomains := AList.update subdomain (sa\<lparr>sub_count := sub_count sa + 1\<rparr>)
                                  (subdomains qa)\<rparr>)
               queries)"
proof (cases "map_of queries domain")
  case None
  then show ?thesis
    by (simp add: record_query_def init_domain_def init_subdomain_def incr_domain_def
        incr_subdomain_def dict_getitem_def in_dict_keys update_conv' h)
next
  case (Some qa)
  show ?thesis
  proof (cases "map_of (subdomains qa) subdomain")
    case None
    with Some show ?thesis
      by (simp add: record_query_def init_domain_def init_subdomain_def incr_domain_def
          incr_subdomain_def dict_getitem_def in_dict_keys update_conv' h)
  next
    case (Some sa)
    with \<open>map_of queries domain = Some qa\<close> show ?thesis
      by (simp add: record_query_def init_domain_def init_subdomain_def incr_domain_def
          incr_subdomain_def dict_getitem_def in_dict_keys update_conv')
  qed
qed

lemma process_row_cases:
  "process_row safelist queries row =
     (if skipped row \<or> safelisted safelist row then Inr queries
      else record_query queries (domain_of (query_field row))
             (subdomain_of (query_field row) (domain_of (query_field row))))"
proof -
  obtain h where "shannon_entropy (domain_of (query_field row)) = Inr h"
    using shannon_entropy_total by blast
  then show ?thesis
    by (auto simp: process_row_def skipped_def safelisted_def query_field_def Let_def
        list_getitem_def)
qed

lemma record_query_total: "\<exists>queries'. record_query queries domain subdomain = Inr queries'"
proof -
  obtain h where "shannon_entropy subdomain = Inr h"
    using shannon_entropy_total by blast
  then show ?thesis by (simp add: record_query_result)
qed

lemma process_row_total: "\<exists>queries'. process_row safelist queries row = Inr queries'"
  by (simp add: process_row_cases record_query_total)

lemma aggregate_rows_total: "\<exists>queries'. aggregate_rows safelist queries rows = Inr queries'"
proof (induction rows arbitrary: queries)
  case Nil
  show ?case by simp
next
  case (Cons row rows)
  obtain q1 where "process_row safelist queries row = Inr q1"
    using process_row_total by blast
  with Cons.IH [of q1] show ?case by simp
qed

lemma aggregate_rows_append:
  "aggregate_rows safelist queries (rows1 @ rows2) =
     (case aggregate_rows safelist queries rows1 of
        Inl e \<Rightarrow> Inl e
      | Inr mid \<Rightarrow> aggregate_rows safelist mid rows2)"
  by (induction rows1 arbitrary: queries) (auto split: sum.splits)

lemma aggregate_rows_invariant:
  assumes step: "\<And>q row q'. P q \<Longrightarrow> process_row safelist q row = Inr q' \<Longrightarrow> P q'"
    and "P queries" and "aggregate_rows safelist queries rows = Inr queries'"
  shows "P queries'"
  using assms(2,3)
proof (induction rows arbitrary: queries)
  case Nil
  then show ?case by simp
next
  case (Cons row rows)
  then show ?case
    by (auto split: sum.splits intro: step)
qed

lemma sum_list_update:
  "(\<Sum>kv\<leftarrow>AList.update k v al. g (snd kv)) =
     (\<Sum>kv\<leftarrow>al. g (snd kv)) - (case map_of al k of None \<Rightarrow> 0 | Some v0 \<Rightarrow> g v0) + (g v :: int)"
  by (induction al) auto

lemma record_query_sum:
  assumes inv: "\<And>d qa. map_of queries d = Some qa \<Longrightarrow> count qa = sub_total qa"
    and run: "record_query queries domain subdomain = Inr queries'"
    and look: "map_of queries' d = Some qa'"
  shows "count qa' = sub_total qa'"
proof -
  obtain h where h: "shannon_entropy subdomain = Inr h"
    using shannon_entropy_total by blast
  show ?thesis
  proof (cases "d = domain")
    case False
    with run look inv show ?thesis
      by (auto simp: record_query_result [OF h] Let_def update_conv')
  next
    case True
    show ?thesis
    proof (cases "map_of queries domain")
      case None
      with True run look show ?thesis
        by (auto simp: record_query_result [OF h] Let_def update_conv' sub_total_def)
    next
      case (Some qa)
      with inv have "count qa = sub_total qa" by simp
      with Some True run look show ?thesis
        by (auto simp: record_query_result [OF h] Let_def update_conv' sub_total_def
            sum_list_update split: option.splits)
    qed
  qed
qed

lemma record_query_distinct:
  assumes inv: "distinct (map fst queries)"
      "\<And>d qa. map_of queries d = Some qa \<Longrightarrow> distinct (map fst (subdomains qa))"
    and run: "record_query queries domain subdomain = Inr queries'"
  shows "distinct (map fst queries') \<and>
    (\<forall>d qa. map_of queries' d = Some qa \<longrightarrow> distinct (map fst (subdomains qa)))"
proof -
  obtain h where h: "shannon_entropy subdomain = Inr h"
    using shannon_entropy_total by blast
  show ?thesis
    using run inv
    by (auto simp: record_query_result [OF h] Let_def update_conv' distinct_update
        split: option.splits if_splits)
qed

lemma record_query_entropy:
  assumes inv: "\<And>d s sa. sub_lookup queries d s = Some sa \<Longrightarrow> shannon_entropy s = Inr (entropy sa)"
    and run: "record_query queries domain subdomain = Inr queries'"
    and look: "sub_lookup queries' d s = Some sa"
  shows "shannon_entropy s = Inr (entropy sa)"
proof -
  obtain h where h: "shannon_entropy subdomain = Inr h"
    using shannon_entropy_total by blast
  have old: "shannon_entropy s' = Inr (entropy sa')"
    if "map_of queries d' = Some qa" "map_of (subdomains qa) s' = Some sa'" for d' qa s' sa'
    using inv [of d' s' sa'] that by (simp add: sub_lookup_def)
  show ?thesis
    using run look h old
    by (auto simp: record_query_result [OF h] Let_def update_conv' sub_lookup_def
        split: option.splits if_splits)
qed

lemma record_query_keeps:
  assumes run: "record_query queries domain subdomain = Inr queries'"
    and look: "sub_lookup queries d s = Some sa"
  shows "\<exists>sa'. sub_lookup queries' d s = Some sa' \<and> entropy sa' = entropy sa \<and>
           sub_count sa \<le> sub_count sa'"
proof -
  obtain h where h: "shannon_entropy subdomain = Inr h"
    using shannon_entropy_total by blast
  show ?thesis
    using run look
    by (auto simp: record_query_result [OF h] Let_def update_conv' sub_lookup_def
        split: option.splits if_splits)
qed

lemma record_query_domain_keys:
  assumes run: "record_query queries domain subdomain = Inr queries'"
  shows "fst ` set queries' = insert domain (fst ` set queries)"
proof -
  obtain h where h: "shannon_entropy subdomain = Inr h"
    using shannon_entropy_total by blast
  show ?thesis
  proof -
    from run obtain v where "queries' = AList.update domain v queries"
      by (auto simp: record_query_result [OF h] Let_def)
    then show ?thesis by (simp add: dom_update)
  qed
qed

lemma set_str_join: "set (str_join sep xs) \<subseteq> set sep \<union> \<Union> (set ` set xs)"
  by (induction sep xs rule: str_join.induct) auto

lemma process_row_fields:
  assumes len: "24 \<le> length flds"
    and notab: "\<And>f. f \<in> set flds \<Longrightarrow> CHR 0x09 \<notin> set f"
    and nohash: "\<not> startswith (str_join [CHR 0x09] flds) ''#''"
  shows "process_row safelist queries (str_join [CHR 0x09] flds) =
     (if domain_of (flds ! 9) \<in> set safelist \<or> flds ! 9 \<in> set safelist then Inr queries
      else record_query queries (domain_of (flds ! 9))
             (subdomain_of (flds ! 9) (domain_of (flds ! 9))))"
proof -
  from len have "flds \<noteq> []" by auto
  then have split: "str_split (CHR 0x09) (str_join [CHR 0x09] flds) = flds"
    using notab by (rule str_split_join)
  show ?thesis
    using len nohash
    by (simp add: process_row_cases skipped_def safelisted_def query_field_def split)
qed

lemma example_row_nohash: "\<not> startswith (example_row query) ''#''"
  by (simp add: example_row_def startswith_def eval_nat_numeral)

lemma process_row_example:
  assumes "CHR 0x09 \<notin> set query"
  shows "process_row safelist queries (example_row query) =
     (if domain_of query \<in> set safelist \<or> query \<in> set safelist then Inr queries
      else record_query queries (domain_of query) (subdomain_of query (domain_of query)))"
proof -
  let ?flds = "replicate 9 ''-'' @ [query] @ replicate 14 ''-''"
  have "process_row safelist queries (str_join [CHR 0x09] ?flds) =
     (if domain_of (?flds ! 9) \<in> set safelist \<or> ?flds ! 9 \<in> set safelist then Inr queries
      else record_query queries (domain_of (?flds ! 9))
             (subdomain_of (?flds ! 9) (domain_of (?flds ! 9))))"
  proof (rule process_row_fields)
    show "24 \<le> length ?flds" by simp
    show "CHR 0x09 \<notin> set f" if "f \<in> set ?flds" for f
      using that assms by auto
    show "\<not> startswith (str_join [CHR 0x09] ?flds) ''#''"
      using example_row_nohash [of query] by (simp add: example_row_def)
  qed
  then show ?thesis by (simp add: example_row_def nth_append)
qed

lemma example_row_no_newline: "CHR 0x0A \<notin> set query \<Longrightarrow> CHR 0x0A \<notin> set (example_row query)"
  using set_str_join [of "[CHR 0x09]" "replicate 9 ''-'' @ [query] @ replicate 14 ''-''"]
  by (auto simp: example_row_def)

lemma entropy_two_chars: "a \<noteq> b \<Longrightarrow> shannon_entropy [a, b] = Inr 1"
proof -
  assume ab: "a \<noteq> b"
  have "shannon_entropy [a, b] = Inr (log 2 (real 2))"
  proof (rule shannon_entropy_uniform)
    show "[a, b] \<noteq> []" by simp
    show "card (set [a, b]) = 2" using ab by simp
    show "real (count_list [a, b] c) / real (length [a, b]) = 1 / real 2"
      if "c \<in> set [a, b]" for c
      using that ab by auto
  qed
  then show ?thesis by simp
qed

lemma process_row_skipped: "skipped row \<Longrightarrow> process_row safelist queries row = Inr queries"
  by (simp add: process_row_cases)

lemma example_log_rows:
  "str_split (CHR 0x0A) example_log =
     [''#fields'', example_row ''x1.evil.io'', ''short'', example_row ''x2.evil.io'',
      example_row ''x1.evil.io'', []]"
  unfolding example_log_def
  by (rule str_split_join) (auto dest: example_row_no_newline [THEN notE, rotated])

lemma example_log_result:
  "aggregate [] example_log =
     Inr [(''evil.io'', \<lparr>count = 3, subdomains =
            [(''x1'', \<lparr>sub_count = 2, entropy = 1\<rparr>), (''x2'', \<lparr>sub_count = 1, entropy = 1\<rparr>)]\<rparr>)]"
  by (simp add: aggregate_def example_log_rows process_row_example process_row_skipped
      skipped_def startswith_def domain_of_def last_two_def subdomain_of_def drop_last_def
      record_query_result [OF entropy_two_chars])

lemma aggregate_rows_filter:
  assumes drop: "\<And>q r. dropped r \<Longrightarrow> process_row safelist q r = Inr q"
  shows "aggregate_rows safelist queries (filter (\<lambda>r. \<not> dropped r) rows) =
         aggregate_rows safelist queries rows"
  by (induction rows arbitrary: queries) (auto simp: drop split: sum.splits)

lemma process_row_step:
  assumes "process_row safelist queries row = Inr queries'"
  obtains "queries' = queries"
  | domain subdomain where "domain \<notin> set safelist"
      "record_query queries domain subdomain = Inr queries'"
proof (cases "skipped row \<or> safelisted safelist row")
  case True
  with assms have "queries' = queries" by (simp add: process_row_cases)
  then show ?thesis by (rule that(1))
next
  case False
  then have "domain_of (query_field row) \<notin> set safelist"
    by (auto simp: safelisted_def)
  moreover from False assms
  have "record_query queries (domain_of (query_field row))
          (subdomain_of (query_field row) (domain_of (query_field row))) = Inr queries'"
    by (simp add: process_row_cases)
  ultimately show ?thesis by (rule that(2))
qed

lemma skipped_empty_row: "skipped []"
  by (simp add: skipped_def)

lemma aggregate_delete_rows:
  assumes drop: "\<And>q r. dropped r \<Longrightarrow> process_row safelist q r = Inr q"
  shows "aggregate safelist
           (str_join [CHR 0x0A] (filter (\<lambda>r. \<not> dropped r) (str_split (CHR 0x0A) log_text))) =
         aggregate safelist log_text"
proof -
  let ?rows = "str_split (CHR 0x0A) log_text"
  let ?kept = "filter (\<lambda>r. \<not> dropped r) ?rows"
  have same: "aggregate_rows safelist [] ?kept = aggregate safelist log_text"
    unfolding aggregate_def using drop by (rule aggregate_rows_filter)
  show ?thesis
  proof (cases "?kept = []")
    case True
    then have "aggregate safelist (str_join [CHR 0x0A] ?kept) = Inr []"
      by (simp add: aggregate_def process_row_skipped skipped_empty_row)
    with same True show ?thesis by simp
  next
    case False
    have "str_split (CHR 0x0A) (str_join [CHR 0x0A] ?kept) = ?kept"
      using False by (rule str_split_join) (auto dest: str_split_no_sep)
    with same show ?thesis by (simp add: aggregate_def)
  qed
qed

lemma process_row_safelisted:
  "safelisted safelist row \<Longrightarrow> process_row safelist queries row = Inr queries"
  by (simp add: process_row_cases)

lemma process_row_domain_keys:
  assumes "process_row safelist queries row = Inr queries'"
    and "fst ` set queries \<inter> set safelist = {}"
  shows "fst ` set queries' \<inter> set safelist = {}"
  using assms(1)
proof (cases rule: process_row_step)
  case 1
  with assms(2) show ?thesis by simp
next
  case (2 domain subdomain)
  from record_query_domain_keys [OF 2(2)] 2(1) assms(2) show ?thesis by auto
qed

lemma aggregate_total: "\<exists>result. aggregate safelist log_text = Inr result"
  by (simp add: aggregate_def aggregate_rows_total)

lemma aggregate_domain_keys:
  assumes "aggregate safelist log_text = Inr result"
  shows "fst ` set result \<inter> set safelist = {}"
proof (rule aggregate_rows_invariant [where P = "\<lambda>q. fst ` set q \<inter> set safelist = {}"])
  show "aggregate_rows safelist [] (str_split (CHR 0x0A) log_text) = Inr result"
    using assms by (simp add: aggregate_def)
  show "fst ` set ([] :: queries) \<inter> set safelist = {}" by simp
  show "fst ` set q' \<inter> set safelist = {}"
    if "fst ` set q \<inter> set safelist = {}" "process_row safelist q row = Inr q'" for q row q'
    using that(2,1) by (rule process_row_domain_keys)
qed

lemma aggregate_sum:
  assumes "aggregate safelist log_text = Inr result" and "map_of result d = Some qa"
  shows "count qa = sub_total qa"
proof -
  have "\<forall>d qa. map_of result d = Some qa \<longrightarrow> count qa = sub_total qa"
  proof (rule aggregate_rows_invariant
      [where P = "\<lambda>q. \<forall>d qa. map_of q d = Some qa \<longrightarrow> count qa = sub_total qa"])
    show "aggregate_rows safelist [] (str_split (CHR 0x0A) log_text) = Inr result"
      using assms by (simp add: aggregate_def)
    show "\<forall>d qa. map_of ([] :: queries) d = Some qa \<longrightarrow> count qa = sub_total qa" by simp
    show "\<forall>d qa. map_of q' d = Some qa \<longrightarrow> count qa = sub_total qa"
      if "\<forall>d qa. map_of q d = Some qa \<longrightarrow> count qa = sub_total qa"
        "process_row safelist q row = Inr q'" for q row q'
      using that(2)
    proof (cases rule: process_row_step)
      case 1
      with that(1) show ?thesis by simp
    next
      case (2 domain subdomain)
      show ?thesis
      proof (intro allI impI)
        fix d qa
        assume look: "map_of q' d = Some qa"
        show "count qa = sub_total qa"
        proof (rule record_query_sum [OF _ 2(2) look])
          fix d0 qa0
          assume "map_of q d0 = Some qa0"
          with that(1) show "count qa0 = sub_total qa0" by blast
        qed
      qed
    qed
  qed
  with assms(2) show ?thesis by blast
qed

lemma aggregate_distinct:
  assumes "aggregate safelist log_text = Inr result"
  shows "distinct (map fst result) \<and>
    (\<forall>d qa. map_of result d = Some qa \<longrightarrow> distinct (map fst (subdomains qa)))"
proof (rule aggregate_rows_invariant
      [where P = "\<lambda>q. distinct (map fst q) \<and>
         (\<forall>d qa. map_of q d = Some qa \<longrightarrow> distinct (map fst (subdomains qa)))"])
  show "aggregate_rows safelist [] (str_split (CHR 0x0A) log_text) = Inr result"
    using assms by (simp add: aggregate_def)
  show "distinct (map fst ([] :: queries)) \<and>
    (\<forall>d qa. map_of ([] :: queries) d = Some qa \<longrightarrow> distinct (map fst (subdomains qa)))"
    by simp
  show "distinct (map fst q') \<and>
      (\<forall>d qa. map_of q' d = Some qa \<longrightarrow> distinct (map fst (subdomains qa)))"
    if "distinct (map fst q) \<and>
      (\<forall>d qa. map_of q d = Some qa \<longrightarrow> distinct (map fst (subdomains qa)))"
      "process_row safelist q row = Inr q'" for q row q'
    using that(2)
  proof (cases rule: process_row_step)
    case 1
    with that(1) show ?thesis by simp
  next
    case (2 domain subdomain)
    from that(1) have a: "distinct (map fst q)"
      and b: "\<And>d qa. map_of q d = Some qa \<Longrightarrow> distinct (map fst (subdomains qa))"
      by blast+
    from a b 2(2) show ?thesis by (rule record_query_distinct)
  qed
qed

lemma example_row_split:
  assumes "CHR 0x09 \<notin> set query"
  shows "str_split (CHR 0x09) (example_row query) = replicate 9 ''-'' @ [query] @ replicate 14 ''-''"
  unfolding example_row_def using assms by (intro str_split_join) auto

lemma query_field_example_row: "CHR 0x09 \<notin> set query \<Longrightarrow> query_field (example_row query) = query"
  by (simp add: query_field_def example_row_split nth_append)

lemma safelist_log_rows:
  "str_split (CHR 0x0A) safelist_log = [example_row ''msn.com'', example_row ''msn.com.evil.io'']"
  unfolding safelist_log_def
  by (rule str_split_join) (auto dest: example_row_no_newline [THEN notE, rotated])

lemma key_tree_record_query:
  "record_query [] domain subdomain = Inr queries' \<Longrightarrow> key_tree queries' = [(domain, [subdomain])]"
  using shannon_entropy_total [of subdomain]
  by (auto simp: record_query_result key_tree_def dict_keys_def)

subsection \<open>The whole loop\<close>

lemma process_row_entropy:
  assumes inv: "\<And>d s sa. sub_lookup queries d s = Some sa \<Longrightarrow> shannon_entropy s = Inr (entropy sa)"
    and run: "process_row safelist queries row = Inr queries'"
    and look: "sub_lookup queries' d s = Some sa"
  shows "shannon_entropy s = Inr (entropy sa)"
  using run
proof (cases rule: process_row_step)
  case 1
  with inv look show ?thesis by simp
next
  case (2 domain subdomain)
  from inv 2(2) look show ?thesis by (rule record_query_entropy)
qed

lemma aggregate_rows_entropy:
  assumes inv: "\<And>d s sa. sub_lookup queries d s = Some sa \<Longrightarrow> shannon_entropy s = Inr (entropy sa)"
    and run: "aggregate_rows safelist queries rows = Inr queries'"
    and look: "sub_lookup queries' d s = Some sa"
  shows "shannon_entropy s = Inr (entropy sa)"
proof -
  have "\<forall>d s sa. sub_lookup queries' d s = Some sa \<longrightarrow> shannon_entropy s = Inr (entropy sa)"
  proof (rule aggregate_rows_invariant [where P = "\<lambda>q. \<forall>d s sa. sub_lookup q d s = Some sa \<longrightarrow>
        shannon_entropy s = Inr (entropy sa)", OF _ _ run])
    show "\<forall>d s sa. sub_lookup queries d s = Some sa \<longrightarrow> shannon_entropy s = Inr (entropy sa)"
      using inv by blast
    show "\<forall>d s sa. sub_lookup q' d s = Some sa \<longrightarrow> shannon_entropy s = Inr (entropy sa)"
      if "\<forall>d s sa. sub_lookup q d s = Some sa \<longrightarrow> shannon_entropy s = Inr (entropy sa)"
        "process_row safelist q row = Inr q'" for q row q'
    proof (intro allI impI)
      fix d s sa
      assume l: "sub_lookup q' d s = Some sa"
      show "shannon_entropy s = Inr (entropy sa)"
      proof (rule process_row_entropy [OF _ that(2) l])
        fix d0 s0 sa0
        assume "sub_lookup q d0 s0 = Some sa0"
        with that(1) show "shannon_entropy s0 = Inr (entropy sa0)" by blast
      qed
    qed
  qed
  with look show ?thesis by blast
qed

lemma process_row_keeps:
  assumes run: "process_row safelist queries row = Inr queries'"
    and look: "sub_lookup queries d s = Some sa"
  shows "\<exists>sa'. sub_lookup queries' d s = Some sa' \<and> entropy sa' = entropy sa \<and>
           sub_count sa \<le> sub_count sa'"
  using run
proof (cases rule: process_row_step)
  case 1
  with look show ?thesis by simp
next
  case (2 domain subdomain)
  from 2(2) look show ?thesis by (rule record_query_keeps)
qed

lemma aggregate_rows_keeps:
  assumes run: "aggregate_rows safelist queries rows = Inr queries'"
    and look: "sub_lookup queries d s = Some sa"
  shows "\<exists>sa'. sub_lookup queries' d s = Some sa' \<and> entropy sa' = entropy sa \<and>
           sub_count sa \<le> sub_count sa'"
  using run look
proof (induction rows arbitrary: queries sa)
  case Nil
  then show ?case by simp
next
  case (Cons row rows)
  from Cons.prems(1) obtain q1 where q1: "process_row safelist queries row = Inr q1"
    and rest: "aggregate_rows safelist q1 rows = Inr queries'"
    by (auto split: sum.splits)
  from process_row_keeps [OF q1 Cons.prems(2)] obtain sa1
    where sa1: "sub_lookup q1 d s = Some sa1" "entropy sa1 = entropy sa" "sub_count sa \<le> sub_count sa1"
    by blast
  from Cons.IH [OF rest sa1(1)] sa1(2,3) show ?case by fastforce
qed

lemma record_query_counts:
  assumes run: "record_query queries domain subdomain = Inr queries'"
  shows "domain_count queries' domain = domain_count queries domain + 1 \<and>
         subdomain_count queries' domain subdomain = subdomain_count queries domain subdomain + 1"
proof -
  obtain h where h: "shannon_entropy subdomain = Inr h"
    using shannon_entropy_total by blast
  show ?thesis
    using run
    by (auto simp: record_query_result [OF h] Let_def update_conv' sub_lookup_def
        domain_count_def subdomain_count_def split: option.splits)
qed

lemma record_query_present:
  assumes run: "record_query queries domain subdomain = Inr queries'"
  shows "\<exists>sa. sub_lookup queries' domain subdomain = Some sa"
proof -
  obtain h where h: "shannon_entropy subdomain = Inr h"
    using shannon_entropy_total by blast
  show ?thesis
    using run
    by (auto simp: record_query_result [OF h] Let_def update_conv' sub_lookup_def)
qed

lemma record_query_positive:
  assumes inv: "\<And>d qa. map_of queries d = Some qa \<Longrightarrow>
      1 \<le> count qa \<and> (\<forall>s sa. map_of (subdomains qa) s = Some sa \<longrightarrow> 1 \<le> sub_count sa)"
    and run: "record_query queries domain subdomain = Inr queries'"
    and look: "map_of queries' d = Some qa"
  shows "1 \<le> count qa \<and> (\<forall>s sa. map_of (subdomains qa) s = Some sa \<longrightarrow> 1 \<le> sub_count sa)"
proof -
  obtain h where h: "shannon_entropy subdomain = Inr h"
    using shannon_entropy_total by blast
  show ?thesis
  proof (cases "map_of queries domain")
    case None
    with run look inv show ?thesis
      by (auto simp: record_query_result [OF h] Let_def update_conv' split: if_splits)
  next
    case (Some qa0)
    from inv [OF Some] have c: "1 \<le> count qa0"
      and s: "\<And>s sa. map_of (subdomains qa0) s = Some sa \<Longrightarrow> 1 \<le> sub_count sa"
      by blast+
    show ?thesis
    proof (cases "d = domain")
      case False
      with run look inv Some show ?thesis
        by (auto simp: record_query_result [OF h] Let_def update_conv')
    next
      case True
      with run look Some c s show ?thesis
        by (fastforce simp: record_query_result [OF h] Let_def update_conv'
            split: if_splits option.splits)
    qed
  qed
qed

lemma aggregate_positive:
  assumes "aggregate safelist log_text = Inr result" and "map_of result d = Some qa"
  shows "1 \<le> count qa \<and> (\<forall>s sa. map_of (subdomains qa) s = Some sa \<longrightarrow> 1 \<le> sub_count sa)"
proof -
  let ?P = "\<lambda>q :: queries. \<forall>d qa. map_of q d = Some qa \<longrightarrow>
      1 \<le> count qa \<and> (\<forall>s sa. map_of (subdomains qa) s = Some sa \<longrightarrow> 1 \<le> sub_count sa)"
  have "?P result"
  proof (rule aggregate_rows_invariant [where P = ?P])
    show "aggregate_rows safelist [] (str_split (CHR 0x0A) log_text) = Inr result"
      using assms by (simp add: aggregate_def)
    show "?P []" by simp
    show "?P q'" if "?P q" "process_row safelist q row = Inr q'" for q row q'
      using that(2)
    proof (cases rule: process_row_step)
      case 1
      with that(1) show ?thesis by simp
    next
      case (2 domain subdomain)
      show ?thesis
      proof (intro allI impI)
        fix d qa
        assume look: "map_of q' d = Some qa"
        show "1 \<le> count qa \<and> (\<forall>s sa. map_of (subdomains qa) s = Some sa \<longrightarrow> 1 \<le> sub_count sa)"
        proof (rule record_query_positive [OF _ 2(2) look])
          fix d0 qa0
          assume "map_of q d0 = Some qa0"
          with that(1) show "1 \<le> count qa0 \<and>
            (\<forall>s sa. map_of (subdomains qa0) s = Some sa \<longrightarrow> 1 \<le> sub_count sa)"
            by blast
        qed
      qed
    qed
  qed
  with assms(2) show ?thesis by blast
qed

lemma aggregate_entropy:
  assumes "aggregate safelist log_text = Inr result" and "sub_lookup result d s = Some sa"
  shows "shannon_entropy s = Inr (entropy sa)"
proof (rule aggregate_rows_entropy [OF _ _ assms(2)])
  show "aggregate_rows safelist [] (str_split (CHR 0x0A) log_text) = Inr result"
    using assms(1) by (simp add: aggregate_def)
  show "shannon_entropy s0 = Inr (entropy sa0)" if "sub_lookup [] d0 s0 = Some sa0" for d0 s0 sa0
    using that by (simp add: sub_lookup_def)
qed

lemma aggregate_row_recorded:
  assumes row: "row \<in> set (str_split (CHR 0x0A) log_text)"
    and data: "\<not> skipped row" "\<not> safelisted safelist row"
  shows "\<exists>result sa. aggregate safelist log_text = Inr result \<and>
     sub_lookup result (domain_of (query_field row))
       (subdomain_of (query_field row) (domain_of (query_field row))) = Some sa"
proof -
  let ?d = "domain_of (query_field row)"
  let ?s = "subdomain_of (query_field row) ?d"
  from row obtain pre post where rows: "str_split (CHR 0x0A) log_text = pre @ row # post"
    by (auto dest: split_list)
  obtain q1 where q1: "aggregate_rows safelist [] pre = Inr q1"
    using aggregate_rows_total by blast
  obtain q2 where q2: "record_query q1 ?d ?s = Inr q2"
    using record_query_total by blast
  obtain result where res: "aggregate_rows safelist q2 post = Inr result"
    using aggregate_rows_total by blast
  from data q2 have step: "process_row safelist q1 row = Inr q2"
    by (simp add: process_row_cases)
  have agg: "aggregate safelist log_text = Inr result"
    by (simp add: aggregate_def rows aggregate_rows_append q1 step res)
  from record_query_present [OF q2] obtain sa2 where "sub_lookup q2 ?d ?s = Some sa2" by blast
  from aggregate_rows_keeps [OF res this] agg show ?thesis by blast
qed

lemma entropy_mail: "shannon_entropy ''mail'' = Inr 2"
proof -
  have "shannon_entropy ''mail'' = Inr (log 2 (real 4))"
  proof (rule shannon_entropy_uniform)
    show "''mail'' \<noteq> []" by simp
    show "card (set ''mail'') = 4" by simp
    show "real (count_list ''mail'' c) / real (length ''mail'') = 1 / real 4"
      if "c \<in> set ''mail''" for c
      using that by auto
  qed
  moreover have "log 2 (real 4) = 2"
    using log_nat_power [of 2 2 2] by simp
  ultimately show ?thesis by simp
qed

subsection \<open>The claims about the aggregation pass\<close>

text \<open>
  Claim C1. For every log text and safelist the aggregator returns a dictionary in which
  every domain's count equals the sum of the counts of its subdomain entries; the keys of
  the dictionary and of every subdomain dictionary are distinct, so each entry is counted
  once.
\<close>

theorem domain_count_is_sum_of_subdomain_counts:
  "\<exists>result. aggregate safelist log_text = Inr result \<and>
     distinct (dict_keys result) \<and>
     (\<forall>domain qa. map_of result domain = Some qa \<longrightarrow>
        distinct (dict_keys (subdomains qa)) \<and>
        count qa = (\<Sum>kv\<leftarrow>subdomains qa. sub_count (snd kv)))"
proof -
  obtain result where r: "aggregate safelist log_text = Inr result"
    using aggregate_total by blast
  from aggregate_distinct [OF r] aggregate_sum [OF r] r show ?thesis
    by (auto simp: dict_keys_def sub_total_def)
qed

theorem domain_count_is_sum_of_subdomain_counts_witness:
  "aggregate [] example_log =
     Inr [(''evil.io'', \<lparr>count = 3, subdomains =
            [(''x1'', \<lparr>sub_count = 2, entropy = 1\<rparr>), (''x2'', \<lparr>sub_count = 1, entropy = 1\<rparr>)]\<rparr>)] \<and>
   count \<lparr>count = 3, subdomains =
            [(''x1'', \<lparr>sub_count = 2, entropy = 1\<rparr>), (''x2'', \<lparr>sub_count = 1, entropy = 1\<rparr>)]\<rparr> =
     (\<Sum>kv\<leftarrow>[(''x1'', \<lparr>sub_count = 2, entropy = 1\<rparr>), (''x2'', \<lparr>sub_count = 1, entropy = 1\<rparr>)].
        sub_count (snd kv))"
  using domain_count_is_sum_of_subdomain_counts [of "[]" example_log]
  by (auto simp: example_log_result)

text \<open>
  Claim C5. The aggregation pass is total: for every log text and safelist it returns a
  dictionary and raises nothing, one iteration of the loop returns from any dictionary
  and any row, and a row that fails a line filter leaves the dictionary as it is.
\<close>

theorem aggregate_never_raises:
  "(\<exists>result. aggregate safelist log_text = Inr result) \<and>
   (\<exists>queries'. process_row safelist queries row = Inr queries') \<and>
   (skipped row \<longrightarrow> process_row safelist queries row = Inr queries)"
  by (simp add: aggregate_total process_row_total process_row_skipped)

theorem aggregate_never_raises_witness:
  "skipped ''too short'' \<and> process_row [] [] ''too short'' = Inr [] \<and>
   (\<exists>result. aggregate [] ''too short'' = Inr result)"
proof -
  have s: "skipped ''too short''" by (simp add: skipped_def)
  with aggregate_never_raises [of "[]" "''too short''" "[]" "''too short''"] show ?thesis
    by blast
qed

text \<open>
  Claim C6. Lines that start with \<open>#\<close> and lines with fewer than 24 tab-separated
  fields contribute nothing: deleting any of them (those chosen by \<open>deleted\<close>) from the log
  text does not change the result.
\<close>

theorem skipped_lines_contribute_nothing:
  "aggregate safelist
     (str_join [CHR 0x0A]
        (filter (\<lambda>row. \<not> (deleted row \<and> skipped row)) (str_split (CHR 0x0A) log_text))) =
   aggregate safelist log_text"
  by (rule aggregate_delete_rows) (simp add: process_row_skipped)

text \<open>
  Claim C2. (as amended) A record whose derived domain is in the safelist, or whose full
  query equals a safelist entry, contributes nothing: deleting any such lines from the log
  does not change the result; and no domain key of the result is a member of the safelist.
  Subdomain keys are not checked against the safelist.
\<close>

theorem safelisted_records_excluded:
  "aggregate safelist
     (str_join [CHR 0x0A]
        (filter (\<lambda>row. \<not> (deleted row \<and> safelisted safelist row))
           (str_split (CHR 0x0A) log_text))) =
   aggregate safelist log_text \<and>
   (\<exists>result. aggregate safelist log_text = Inr result \<and>
      set (dict_keys result) \<inter> set safelist = {})"
proof
  show "aggregate safelist
     (str_join [CHR 0x0A]
        (filter (\<lambda>row. \<not> (deleted row \<and> safelisted safelist row))
           (str_split (CHR 0x0A) log_text))) =
   aggregate safelist log_text"
    by (rule aggregate_delete_rows) (simp add: process_row_safelisted)
  obtain result where r: "aggregate safelist log_text = Inr result"
    using aggregate_total by blast
  with aggregate_domain_keys [OF r]
  show "\<exists>result. aggregate safelist log_text = Inr result \<and>
      set (dict_keys result) \<inter> set safelist = {}"
    by (simp add: dict_keys_def)
qed

text \<open>
  Claim C2, as stated, fails for subdomain keys. With the safelist \<open>["msn.com"]\<close> and a
  log of two records, \<open>msn.com\<close> (dropped: its query equals the safelist entry) and
  \<open>msn.com.evil.io\<close>, the safelisted string \<open>msn.com\<close> is a subdomain key under the
  domain \<open>evil.io\<close>.
\<close>

theorem safelisted_string_as_subdomain_key:
  "''msn.com'' \<in> set [''msn.com''] \<and>
   query_field (example_row ''msn.com'') = ''msn.com'' \<and>
   map_sum id key_tree (aggregate [''msn.com''] safelist_log) = Inr [(''evil.io'', [''msn.com''])]"
proof -
  obtain q' where q': "record_query [] ''evil.io'' ''msn.com'' = Inr q'"
    using record_query_total by blast
  have "aggregate [''msn.com''] safelist_log = Inr q'"
    by (simp add: aggregate_def safelist_log_rows process_row_example
      domain_of_def last_two_def subdomain_of_def drop_last_def q')
  moreover have "query_field (example_row ''msn.com'') = ''msn.com''"
    by (simp add: query_field_example_row)
  ultimately show ?thesis
    by (simp add: key_tree_record_query [OF q'])
qed

text \<open>
  Claim C3. The code at a query in which the derived domain occurs twice,
  \<open>www.example.com.example.com\<close>: the domain is \<open>example.com\<close>, and \<^verbatim>\<open>replace\<close> removes
  both occurrences, so the recorded subdomain key is \<open>www.\<close> and not the query without its
  trailing \<open>.example.com\<close>, which is \<open>www.example.com\<close>. Likewise the query \<open>a.a.a\<close>, of
  domain \<open>a.a\<close>, is recorded under the subdomain key \<open>.\<close> and not \<open>a\<close>.
\<close>

theorem subdomain_of_repeated_domain:
  "domain_of ''www.example.com.example.com'' = ''example.com'' \<and>
   subdomain_of ''www.example.com.example.com'' ''example.com'' = ''www.'' \<and>
   domain_of ''a.a.a'' = ''a.a'' \<and> subdomain_of ''a.a.a'' ''a.a'' = ''.'' \<and>
   map_sum id key_tree (aggregate [] (example_row ''www.example.com.example.com'')) =
     Inr [(''example.com'', [''www.''])]"
proof -
  obtain q' where q': "record_query [] ''example.com'' ''www.'' = Inr q'"
    using record_query_total by blast
  have nl: "str_split (CHR 0x0A) (example_row ''www.example.com.example.com'') =
      [example_row ''www.example.com.example.com'']"
    by (rule str_split_single) (auto dest: example_row_no_newline [THEN notE, rotated])
  have d: "domain_of ''www.example.com.example.com'' = ''example.com''"
    by (simp add: domain_of_def last_two_def)
  have s: "subdomain_of ''www.example.com.example.com'' ''example.com'' = ''www.''"
    by (simp add: subdomain_of_def drop_last_def)
  have "aggregate [] (example_row ''www.example.com.example.com'') = Inr q'"
    by (simp add: aggregate_def nl process_row_example d s q')
  moreover have "domain_of ''a.a.a'' = ''a.a''"
    by (simp add: domain_of_def last_two_def)
  moreover have "subdomain_of ''a.a.a'' ''a.a'' = ''.''"
    by (simp add: subdomain_of_def drop_last_def)
  ultimately show ?thesis
    using d s by (simp add: key_tree_record_query [OF q'])
qed

text \<open>
  Claim C7. In the result, the entropy stored for a subdomain key \<open>s\<close> under any domain
  is \<^const>\<open>shannon_entropy\<close> of \<open>s\<close> itself; and it is set once: at whatever point the rows
  of the log are cut in two, an entry present after the first part has the same entropy in
  the final result.
\<close>

theorem entropy_fixed_at_first_insert:
  assumes split: "str_split (CHR 0x0A) log_text = rows1 @ rows2"
  shows "\<exists>mid result.
     aggregate_rows safelist [] rows1 = Inr mid \<and> aggregate safelist log_text = Inr result \<and>
     (\<forall>d s sa. sub_lookup result d s = Some sa \<longrightarrow> shannon_entropy s = Inr (entropy sa)) \<and>
     (\<forall>d s sa. sub_lookup mid d s = Some sa \<longrightarrow>
        (\<exists>sa'. sub_lookup result d s = Some sa' \<and> entropy sa' = entropy sa))"
proof -
  obtain mid where mid: "aggregate_rows safelist [] rows1 = Inr mid"
    using aggregate_rows_total by blast
  obtain result where rest: "aggregate_rows safelist mid rows2 = Inr result"
    using aggregate_rows_total by blast
  have agg: "aggregate safelist log_text = Inr result"
    by (simp add: aggregate_def split aggregate_rows_append mid rest)
  have "shannon_entropy s = Inr (entropy sa)" if "sub_lookup result d s = Some sa" for d s sa
    using agg that by (rule aggregate_entropy)
  moreover have "\<exists>sa'. sub_lookup result d s = Some sa' \<and> entropy sa' = entropy sa"
    if "sub_lookup mid d s = Some sa" for d s sa
    using aggregate_rows_keeps [OF rest that] by blast
  ultimately show ?thesis using mid agg by blast
qed

theorem entropy_fixed_at_first_insert_witness:
  "str_split (CHR 0x0A) example_log =
     [''#fields'', example_row ''x1.evil.io''] @
     [''short'', example_row ''x2.evil.io'', example_row ''x1.evil.io'', []] \<and>
   sub_lookup [(''evil.io'', \<lparr>count = 1, subdomains = [(''x1'', \<lparr>sub_count = 1, entropy = 1\<rparr>)]\<rparr>)]
     ''evil.io'' ''x1'' = Some \<lparr>sub_count = 1, entropy = 1\<rparr> \<and>
   aggregate_rows [] [] [''#fields'', example_row ''x1.evil.io''] =
     Inr [(''evil.io'', \<lparr>count = 1, subdomains = [(''x1'', \<lparr>sub_count = 1, entropy = 1\<rparr>)]\<rparr>)] \<and>
   (\<exists>result sa'. aggregate [] example_log = Inr result \<and>
      sub_lookup result ''evil.io'' ''x1'' = Some sa' \<and> entropy sa' = 1 \<and>
      shannon_entropy ''x1'' = Inr (entropy sa'))"
proof -
  let ?mid = "[(''evil.io'', \<lparr>count = 1, subdomains = [(''x1'', \<lparr>sub_count = 1, entropy = 1\<rparr>)]\<rparr>)]"
  have rows: "str_split (CHR 0x0A) example_log =
     [''#fields'', example_row ''x1.evil.io''] @
     [''short'', example_row ''x2.evil.io'', example_row ''x1.evil.io'', []]"
    by (simp add: example_log_rows)
  have mid: "aggregate_rows [] [] [''#fields'', example_row ''x1.evil.io''] = Inr ?mid"
    by (simp add: process_row_example process_row_skipped
      skipped_def startswith_def domain_of_def last_two_def subdomain_of_def drop_last_def
      record_query_result [OF entropy_two_chars])
  have look: "sub_lookup ?mid ''evil.io'' ''x1'' = Some \<lparr>sub_count = 1, entropy = 1\<rparr>"
    by (simp add: sub_lookup_def)
  from entropy_fixed_at_first_insert [OF rows, of "[]"]
  obtain mid' result where
    a: "aggregate_rows [] [] [''#fields'', example_row ''x1.evil.io''] = Inr mid'"
    and b: "aggregate [] example_log = Inr result"
    and c: "\<And>d s sa. sub_lookup result d s = Some sa \<Longrightarrow> shannon_entropy s = Inr (entropy sa)"
    and d: "\<And>d s sa. sub_lookup mid' d s = Some sa \<Longrightarrow>
        \<exists>sa'. sub_lookup result d s = Some sa' \<and> entropy sa' = entropy sa"
    by blast
  from a mid have "mid' = ?mid" by simp
  with look have "sub_lookup mid' ''evil.io'' ''x1'' = Some \<lparr>sub_count = 1, entropy = 1\<rparr>"
    by simp
  from d [OF this] obtain sa' where sa': "sub_lookup result ''evil.io'' ''x1'' = Some sa'"
    "entropy sa' = 1" by auto
  from c [OF sa'(1)] have "shannon_entropy ''x1'' = Inr (entropy sa')" .
  with b sa' have "\<exists>result sa'. aggregate [] example_log = Inr result \<and>
      sub_lookup result ''evil.io'' ''x1'' = Some sa' \<and> entropy sa' = 1 \<and>
      shannon_entropy ''x1'' = Inr (entropy sa')"
    by blast
  with rows mid look show ?thesis by (intro conjI)
qed

text \<open>
  Claim C8. Two runs of the notebook on the same log text and the same safelist give the
  same dictionary, whatever the variables \<^verbatim>\<open>rows\<close> and \<^verbatim>\<open>queries\<close> held
  before; it is the value of \<^const>\<open>aggregate\<close> on the two inputs; and running again on the
  state a run has left changes nothing.
\<close>

theorem rerun_gives_identical_result:
  assumes "nb_log nb1 = nb_log nb2"
  shows "\<exists>result. aggregate safelist (nb_log nb1) = Inr result \<and>
     map_sum id nb_queries (run_notebook safelist nb1) = Inr result \<and>
     map_sum id nb_queries (run_notebook safelist nb2) = Inr result \<and>
     (\<exists>nb'. run_notebook safelist nb1 = Inr nb' \<and> run_notebook safelist nb' = Inr nb')"
proof -
  obtain result where r: "aggregate safelist (nb_log nb1) = Inr result"
    using aggregate_total by blast
  then have rows: "aggregate_rows safelist [] (str_split (CHR 0x0A) (nb_log nb1)) = Inr result"
    by (simp add: aggregate_def)
  with assms r show ?thesis
    by (simp add: run_notebook_def cell_aggregate_def cell_ingest_def)
qed

theorem rerun_gives_identical_result_witness:
  "nb_log \<lparr>nb_log = example_log, nb_rows = [], nb_queries = []\<rparr> =
   nb_log \<lparr>nb_log = example_log, nb_rows = [''stale''],
           nb_queries = [(''old.org'', \<lparr>count = 7, subdomains = []\<rparr>)]\<rparr> \<and>
   map_sum id nb_queries
     (run_notebook [] \<lparr>nb_log = example_log, nb_rows = [], nb_queries = []\<rparr>) =
     Inr [(''evil.io'', \<lparr>count = 3, subdomains =
            [(''x1'', \<lparr>sub_count = 2, entropy = 1\<rparr>), (''x2'', \<lparr>sub_count = 1, entropy = 1\<rparr>)]\<rparr>)] \<and>
   map_sum id nb_queries
     (run_notebook [] \<lparr>nb_log = example_log, nb_rows = [''stale''],
           nb_queries = [(''old.org'', \<lparr>count = 7, subdomains = []\<rparr>)]\<rparr>) =
     Inr [(''evil.io'', \<lparr>count = 3, subdomains =
            [(''x1'', \<lparr>sub_count = 2, entropy = 1\<rparr>), (''x2'', \<lparr>sub_count = 1, entropy = 1\<rparr>)]\<rparr>)]"
proof -
  have h: "nb_log \<lparr>nb_log = example_log, nb_rows = [], nb_queries = []\<rparr> =
   nb_log \<lparr>nb_log = example_log, nb_rows = [''stale''],
           nb_queries = [(''old.org'', \<lparr>count = 7, subdomains = []\<rparr>)]\<rparr>"
    by simp
  from rerun_gives_identical_result [OF h, of "[]"]
  obtain result where
    a: "aggregate [] example_log = Inr result"
    and b: "map_sum id nb_queries
       (run_notebook [] \<lparr>nb_log = example_log, nb_rows = [], nb_queries = []\<rparr>) = Inr result"
    and c: "map_sum id nb_queries
       (run_notebook [] \<lparr>nb_log = example_log, nb_rows = [''stale''],
           nb_queries = [(''old.org'', \<lparr>count = 7, subdomains = []\<rparr>)]\<rparr>) = Inr result"
    by auto
  from a have "result = [(''evil.io'', \<lparr>count = 3, subdomains =
            [(''x1'', \<lparr>sub_count = 2, entropy = 1\<rparr>), (''x2'', \<lparr>sub_count = 1, entropy = 1\<rparr>)]\<rparr>)]"
    by (simp add: example_log_result)
  with h b c show ?thesis by (intro conjI) simp_all
qed

text \<open>
  Claim C9. A log of one data line (with or without a final newline) of at least 24
  tab-separated fields whose field 9 is \<open>mail.example.com\<close>, run with the empty safelist, gives
  exactly the domain key \<open>example.com\<close> with count 1 and the one subdomain key \<open>mail\<close> with
  count 1 and the entropy of \<open>mail\<close>, which is 2.
\<close>

theorem single_query_scenario:
  assumes len: "24 \<le> length flds"
    and query: "flds ! 9 = ''mail.example.com''"
    and clean: "\<forall>f\<in>set flds. CHR 0x09 \<notin> set f \<and> CHR 0x0A \<notin> set f"
    and data: "\<not> startswith (str_join [CHR 0x09] flds) ''#''"
  shows "aggregate [] (str_join [CHR 0x09] flds) =
           Inr [(''example.com'', \<lparr>count = 1, subdomains =
                  [(''mail'', \<lparr>sub_count = 1, entropy = 2\<rparr>)]\<rparr>)] \<and>
         aggregate [] (str_join [CHR 0x09] flds @ [CHR 0x0A]) =
           Inr [(''example.com'', \<lparr>count = 1, subdomains =
                  [(''mail'', \<lparr>sub_count = 1, entropy = 2\<rparr>)]\<rparr>)] \<and>
         shannon_entropy ''mail'' = Inr 2"
proof -
  let ?row = "str_join [CHR 0x09] flds"
  let ?res = "[(''example.com'', \<lparr>count = 1, subdomains =
                  [(''mail'', \<lparr>sub_count = 1, entropy = 2\<rparr>)]\<rparr>)]"
  have nonl: "CHR 0x0A \<notin> set ?row"
    using set_str_join [of "[CHR 0x09]" flds] clean by auto
  have d: "domain_of ''mail.example.com'' = ''example.com''"
    by (simp add: domain_of_def last_two_def)
  have s: "subdomain_of ''mail.example.com'' ''example.com'' = ''mail''"
    by (simp add: subdomain_of_def drop_last_def)
  have "process_row [] [] ?row =
      record_query [] (domain_of (flds ! 9)) (subdomain_of (flds ! 9) (domain_of (flds ! 9)))"
    using len clean data by (subst process_row_fields) simp_all
  then have step: "process_row [] [] ?row = Inr ?res"
    by (simp add: query d s record_query_result [OF entropy_mail])
  have one: "aggregate [] ?row = Inr ?res"
    using nonl by (simp add: aggregate_def str_split_single step)
  have "str_split (CHR 0x0A) (?row @ [CHR 0x0A]) = [?row, []]"
    using nonl by (simp add: str_split_append_sep)
  then have two: "aggregate [] (?row @ [CHR 0x0A]) = Inr ?res"
    by (simp add: aggregate_def step process_row_skipped skipped_empty_row)
  from one two entropy_mail show ?thesis by (intro conjI)
qed

theorem single_query_scenario_witness:
  "24 \<le> length (replicate 9 ''-'' @ [''mail.example.com''] @ replicate 14 ''-'') \<and>
   (replicate 9 ''-'' @ [''mail.example.com''] @ replicate 14 ''-'') ! 9 = ''mail.example.com'' \<and>
   aggregate [] (example_row ''mail.example.com'') =
     Inr [(''example.com'', \<lparr>count = 1, subdomains =
            [(''mail'', \<lparr>sub_count = 1, entropy = 2\<rparr>)]\<rparr>)]"
proof -
  let ?flds = "replicate 9 ''-'' @ [''mail.example.com''] @ replicate 14 ''-''"
  have len: "24 \<le> length ?flds" by simp
  have query: "?flds ! 9 = ''mail.example.com''" by (simp add: nth_append)
  have clean: "\<forall>f\<in>set ?flds. CHR 0x09 \<notin> set f \<and> CHR 0x0A \<notin> set f" by auto
  have data: "\<not> startswith (str_join [CHR 0x09] ?flds) ''#''"
    using example_row_nohash [of "''mail.example.com''"] by (simp add: example_row_def)
  from single_query_scenario [OF len query clean data] len query show ?thesis
    by (simp add: example_row_def)
qed

text \<open>
  Claim C10. For a data line of at least 24 fields whose field 9 has no dot and is not
  in the safelist, the derived domain is the whole query and the derived subdomain is the
  empty string, of entropy 0. Processing the line raises the count of the domain key (the
  query, possibly the empty string) and of its subdomain key \<open>""\<close> by one; and in the result
  of any log that has the line, both keys are present with counts of at least 1 and the
  stored entropy is 0.
\<close>

theorem dotless_query_counted_under_itself:
  assumes data: "\<not> startswith row ''#''" "24 \<le> length (str_split (CHR 0x09) row)"
    and query: "query = str_split (CHR 0x09) row ! 9"
    and nodot: "CHR ''.'' \<notin> set query"
    and unlisted: "query \<notin> set safelist"
  shows "domain_of query = query \<and>
         subdomain_of query (domain_of query) = [] \<and>
         shannon_entropy (subdomain_of query (domain_of query)) = Inr 0 \<and>
         (\<exists>queries'. process_row safelist queries row = Inr queries' \<and>
            domain_count queries' query = domain_count queries query + 1 \<and>
            subdomain_count queries' query [] = subdomain_count queries query [] + 1) \<and>
         (row \<in> set (str_split (CHR 0x0A) log_text) \<longrightarrow>
            (\<exists>result qa sa. aggregate safelist log_text = Inr result \<and>
               map_of result query = Some qa \<and> 1 \<le> count qa \<and>
               map_of (subdomains qa) [] = Some sa \<and> 1 \<le> sub_count sa \<and> entropy sa = 0))"
proof -
  have d: "domain_of query = query"
    using nodot by (rule domain_of_no_dot)
  have s: "subdomain_of query (domain_of query) = []"
    by (simp add: d subdomain_of_self)
  have h: "shannon_entropy ([] :: string) = Inr 0"
    by (simp add: shannon_entropy_def)
  have q: "query_field row = query"
    by (simp add: query_field_def query)
  have ns: "\<not> skipped row"
    using data by (simp add: skipped_def)
  have nl: "\<not> safelisted safelist row"
    using unlisted by (simp add: safelisted_def q d)
  have step: "process_row safelist queries row = record_query queries query []"
    using ns nl by (simp add: process_row_cases q d subdomain_of_self)
  obtain queries' where q': "record_query queries query [] = Inr queries'"
    using record_query_total by blast
  from record_query_counts [OF q'] step q'
  have one: "\<exists>queries'. process_row safelist queries row = Inr queries' \<and>
            domain_count queries' query = domain_count queries query + 1 \<and>
            subdomain_count queries' query [] = subdomain_count queries query [] + 1"
    by simp
  have all: "\<exists>result qa sa. aggregate safelist log_text = Inr result \<and>
               map_of result query = Some qa \<and> 1 \<le> count qa \<and>
               map_of (subdomains qa) [] = Some sa \<and> 1 \<le> sub_count sa \<and> entropy sa = 0"
    if row: "row \<in> set (str_split (CHR 0x0A) log_text)"
  proof -
    from aggregate_row_recorded [OF row ns nl] obtain result sa
      where res: "aggregate safelist log_text = Inr result"
        and sa: "sub_lookup result query [] = Some sa"
      by (auto simp: q d subdomain_of_self)
    from sa obtain qa where qa: "map_of result query = Some qa"
      "map_of (subdomains qa) [] = Some sa"
      by (auto simp: sub_lookup_def split: option.splits)
    from aggregate_positive [OF res qa(1)] qa(2)
    have pos: "1 \<le> count qa" "1 \<le> sub_count sa" by blast+
    from aggregate_entropy [OF res sa] h have "entropy sa = 0" by simp
    with res qa pos show ?thesis by blast
  qed
  from d s h one all show ?thesis by (simp add: s)
qed

theorem dotless_query_counted_under_itself_witness:
  "\<not> startswith (example_row ''localhost'') ''#'' \<and>
   24 \<le> length (str_split (CHR 0x09) (example_row ''localhost'')) \<and>
   ''localhost'' = str_split (CHR 0x09) (example_row ''localhost'') ! 9 \<and>
   CHR ''.'' \<notin> set ''localhost'' \<and>
   ''localhost'' \<notin> set [''msn.com''] \<and>
   example_row ''localhost'' \<in> set (str_split (CHR 0x0A) (example_row ''localhost'')) \<and>
   domain_of ''localhost'' = ''localhost'' \<and>
   subdomain_of ''localhost'' (domain_of ''localhost'') = [] \<and>
   (\<exists>queries'. process_row [''msn.com''] [] (example_row ''localhost'') = Inr queries' \<and>
      domain_count queries' ''localhost'' = 1 \<and> subdomain_count queries' ''localhost'' [] = 1) \<and>
   (\<exists>result qa sa. aggregate [''msn.com''] (example_row ''localhost'') = Inr result \<and>
      map_of result ''localhost'' = Some qa \<and> 1 \<le> count qa \<and>
      map_of (subdomains qa) [] = Some sa \<and> 1 \<le> sub_count sa \<and> entropy sa = 0)"
proof -
  let ?row = "example_row ''localhost''"
  have a: "\<not> startswith ?row ''#''" by (rule example_row_nohash)
  have b: "24 \<le> length (str_split (CHR 0x09) ?row)" by (simp add: example_row_split)
  have c: "''localhost'' = str_split (CHR 0x09) ?row ! 9"
    by (simp add: example_row_split nth_append)
  have d: "CHR ''.'' \<notin> set ''localhost''" by simp
  have e: "''localhost'' \<notin> set [''msn.com'']" by simp
  have f: "?row \<in> set (str_split (CHR 0x0A) ?row)"
    by (subst str_split_single) (auto dest: example_row_no_newline [THEN notE, rotated])
  note t = dotless_query_counted_under_itself [OF a b c d e, of "[]" ?row]
  from t f have g: "\<exists>result qa sa. aggregate [''msn.com''] ?row = Inr result \<and>
      map_of result ''localhost'' = Some qa \<and> 1 \<le> count qa \<and>
      map_of (subdomains qa) [] = Some sa \<and> 1 \<le> sub_count sa \<and> entropy sa = 0"
    by blast
  from t have h: "\<exists>queries'. process_row [''msn.com''] [] ?row = Inr queries' \<and>
      domain_count queries' ''localhost'' = 1 \<and> subdomain_count queries' ''localhost'' [] = 1"
    by (simp add: domain_count_def subdomain_count_def sub_lookup_def)
  from t have i: "domain_of ''localhost'' = ''localhost''"
    and j: "subdomain_of ''localhost'' (domain_of ''localhost'') = []" by blast+
  from a b c d e f g h i j show ?thesis by (intro conjI)
qed

end
